theory Spec2Isabelle
  imports Complex_Main
begin

section \<open>Python and numpy values\<close>

text \<open>
  Exceptions of the Python code are values of the type \<open>error\<close>; a function that may
  raise returns \<open>error + 'a\<close>, and a method that mutates its argument returns the
  argument's new state beside its outcome, also when it raises (what was written before
  the \<^verbatim>\<open>raise\<close> stays written). \<open>Unmodelled\<close> marks the states that a dataframe
  cannot be in or that pandas answers with values outside these types (columns of
  different lengths, a column \<^verbatim>\<open>detected\<close> created by an assignment to some of its
  cells); no call of \<^verbatim>\<open>ingest_lightcurves\<close> on a well-formed lightcurve reaches them.
\<close>

datatype error = ValueError | IndexError | KeyError | AttributeError | Unmodelled

text \<open>
  A float64 cell of a numpy array or a pandas column. Finite values are idealised as
  reals (no rounding, no overflow, no signed zero); not-a-number and the two infinities
  are values of their own, with the IEEE rules that numpy follows: every comparison with
  NaN is false, arithmetic with NaN is NaN, division by zero gives an infinity (NaN for
  0/0) and never raises.
\<close>

datatype npfloat = NaN | NInf | Fin real | PInf

fun np_isnan :: "npfloat \<Rightarrow> bool" where
  "np_isnan NaN = True"
| "np_isnan _ = False"

fun np_gt :: "npfloat \<Rightarrow> npfloat \<Rightarrow> bool" where
  "np_gt NaN _ = False"
| "np_gt _ NaN = False"
| "np_gt PInf b = (b \<noteq> PInf)"
| "np_gt NInf _ = False"
| "np_gt (Fin a) NInf = True"
| "np_gt (Fin a) (Fin b) = (b < a)"
| "np_gt (Fin a) PInf = False"

definition np_le :: "npfloat \<Rightarrow> npfloat \<Rightarrow> bool" where
  "np_le a b = (\<not> np_isnan a \<and> \<not> np_isnan b \<and> \<not> np_gt a b)"

fun np_abs :: "npfloat \<Rightarrow> npfloat" where
  "np_abs NaN = NaN"
| "np_abs NInf = PInf"
| "np_abs PInf = PInf"
| "np_abs (Fin a) = Fin \<bar>a\<bar>"

fun np_neg :: "npfloat \<Rightarrow> npfloat" where
  "np_neg NaN = NaN"
| "np_neg NInf = PInf"
| "np_neg PInf = NInf"
| "np_neg (Fin a) = Fin (- a)"

fun np_add :: "npfloat \<Rightarrow> npfloat \<Rightarrow> npfloat" where
  "np_add NaN _ = NaN"
| "np_add _ NaN = NaN"
| "np_add (Fin a) (Fin b) = Fin (a + b)"
| "np_add PInf NInf = NaN"
| "np_add NInf PInf = NaN"
| "np_add PInf _ = PInf"
| "np_add NInf _ = NInf"
| "np_add (Fin a) b = b"

definition np_sub :: "npfloat \<Rightarrow> npfloat \<Rightarrow> npfloat" where
  "np_sub a b = np_add a (np_neg b)"

fun np_div :: "npfloat \<Rightarrow> npfloat \<Rightarrow> npfloat" where
  "np_div NaN _ = NaN"
| "np_div _ NaN = NaN"
| "np_div (Fin a) (Fin b) =
     (if b \<noteq> 0 then Fin (a / b)
      else if 0 < a then PInf else if a < 0 then NInf else NaN)"
| "np_div (Fin a) _ = Fin 0"
| "np_div PInf (Fin b) = (if 0 \<le> b then PInf else NInf)"
| "np_div NInf (Fin b) = (if 0 \<le> b then NInf else PInf)"
| "np_div _ _ = NaN"

text \<open>\<^verbatim>\<open>np.maximum\<close>: the larger of the two, NaN as soon as one of them is NaN.\<close>

definition np_maximum :: "npfloat \<Rightarrow> npfloat \<Rightarrow> npfloat" where
  "np_maximum a b =
     (if np_isnan a \<or> np_isnan b then NaN else if np_gt b a then b else a)"

text \<open>
  \<^verbatim>\<open>np.argmax\<close>: the first index of the largest cell, the first NaN when there is
  one, and \<^verbatim>\<open>ValueError\<close> on an empty array. \<open>argmax_from\<close> scans the cells after
  the current best one, \<open>i\<close> being the index of the next cell.
\<close>

fun argmax_from :: "nat \<Rightarrow> npfloat \<Rightarrow> nat \<Rightarrow> npfloat list \<Rightarrow> nat" where
  "argmax_from b bv i [] = b"
| "argmax_from b bv i (x # xs) =
     (if np_isnan bv then b
      else if np_isnan x \<or> np_gt x bv then argmax_from i x (Suc i) xs
      else argmax_from b bv (Suc i) xs)"

definition np_argmax :: "npfloat list \<Rightarrow> error + nat" where
  "np_argmax xs = (case xs of [] \<Rightarrow> Inl ValueError | x # rest \<Rightarrow> Inr (argmax_from 0 x 1 rest))"

text \<open>\<^verbatim>\<open>np.where(mask)[0]\<close>: the indices of the True cells, in increasing order.\<close>

definition np_where :: "bool list \<Rightarrow> nat list" where
  "np_where m = filter (\<lambda>i. m ! i) [0..<length m]"

text \<open>
  \<^verbatim>\<open>Series.median()\<close> skips NaN cells, sorts the others and returns the middle one,
  or the mean of the two middle ones; NaN when nothing is left.
\<close>

fun insort_np :: "npfloat \<Rightarrow> npfloat list \<Rightarrow> npfloat list" where
  "insort_np x [] = [x]"
| "insort_np x (y # ys) = (if np_gt x y then y # insort_np x ys else x # y # ys)"

definition sort_np :: "npfloat list \<Rightarrow> npfloat list" where
  "sort_np xs = foldr insort_np xs []"

definition np_half :: "npfloat \<Rightarrow> npfloat" where
  "np_half a = np_div a (Fin 2)"

definition median :: "npfloat list \<Rightarrow> npfloat" where
  "median xs =
     (let ys = sort_np (filter (\<lambda>x. \<not> np_isnan x) xs); n = length ys
      in if n = 0 then NaN
         else if odd n then ys ! (n div 2)
         else np_half (np_add (ys ! (n div 2 - 1)) (ys ! (n div 2))))"

section \<open>The finder\<close>

text \<open>
  The options of \<^verbatim>\<open>Finder.pars\<close>. \<^verbatim>\<open>snr_threshold_sidebands\<close> is looked up with
  \<^verbatim>\<open>in self.pars\<close>, so it may be absent (\<open>None\<close>).
\<close>

record pars =
  snr_threshold :: real
  snr_threshold_sidebands :: "real option"
  max_det_per_lc :: int
  abs_snr :: bool

definition default_pars :: pars where
  "default_pars =
     \<lparr>snr_threshold = 5, snr_threshold_sidebands = Some (- 2), max_det_per_lc = 1, abs_snr = True\<rparr>"

text \<open>
  A \<^verbatim>\<open>Lightcurve\<close>: the columns of its dataframe \<^verbatim>\<open>data\<close> that the finder reads or
  writes, its array \<^verbatim>\<open>times\<close> and its two robust statistics. The columns
  \<^verbatim>\<open>snr\<close>, \<^verbatim>\<open>dmag\<close> and \<^verbatim>\<open>detected\<close> are added by the finder and are absent
  (\<open>None\<close>) before. A dataframe has one length for all its columns, which is
  \<open>wf_lightcurve\<close>; the index of the dataframe is the default one (positions).
\<close>

record lightcurve =
  times :: "real list"
  flux :: "npfloat list"
  fluxerr :: "npfloat list"
  mag :: "npfloat list"
  flag :: "bool list"
  snr :: "npfloat list option"
  dmag :: "npfloat list option"
  detected :: "bool list option"
  flux_mean_robust :: npfloat
  flux_rms_robust :: npfloat

definition col_ok :: "nat \<Rightarrow> 'a list option \<Rightarrow> bool" where
  "col_ok n c = (case c of None \<Rightarrow> True | Some xs \<Rightarrow> length xs = n)"

definition wf_lightcurve :: "lightcurve \<Rightarrow> bool" where
  "wf_lightcurve lc =
     (let n = length (flux lc)
      in length (times lc) = n \<and> length (fluxerr lc) = n \<and> length (mag lc) = n \<and>
         length (flag lc) = n \<and> col_ok n (snr lc) \<and> col_ok n (dmag lc) \<and>
         col_ok n (detected lc))"

text \<open>
  A \<^verbatim>\<open>DetectionInTime\<close> as \<^verbatim>\<open>make_detection\<close> fills it. Its references to the source,
  the raw data and the lightcurve object are left out: they are pointers to objects
  that live on, not values of the detection.
\<close>

type_synonym sim_dict = "(string \<times> real) list"

record detection =
  time_peak :: real
  det_snr :: npfloat
  time_indices :: "bool list"
  time_start :: real
  time_end :: real
  simulated :: bool
  sim_pars :: "sim_dict option"

definition estimate_flux_noise :: "lightcurve \<Rightarrow> npfloat list" where
  "estimate_flux_noise lc = map (\<lambda>e. np_maximum e (flux_rms_robust lc)) (fluxerr lc)"

text \<open>The threshold of the event region, as \<^verbatim>\<open>get_event_indices\<close> chooses it.\<close>

definition event_thresh :: "pars \<Rightarrow> real" where
  "event_thresh p =
     (case snr_threshold_sidebands p of
        Some sb \<Rightarrow> (if sb < 0 then snr_threshold p + sb else sb)
      | None \<Rightarrow> snr_threshold p)"

definition get_event_indices :: "pars \<Rightarrow> lightcurve \<Rightarrow> error + bool list" where
  "get_event_indices p lc =
     (case snr lc of
        None \<Rightarrow> Inl KeyError
      | Some col \<Rightarrow> Inr (map (\<lambda>v. np_gt v (Fin (event_thresh p))) col))"

text \<open>
  \<^verbatim>\<open>make_detection\<close> reads the peak, marks the event region in the column
  \<^verbatim>\<open>detected\<close>, then reads the first and the last index of the region, which raises
  \<^verbatim>\<open>IndexError\<close> when the region is empty.
\<close>

definition make_detection ::
  "pars \<Rightarrow> nat \<Rightarrow> lightcurve \<Rightarrow> sim_dict option \<Rightarrow> (error + detection) \<times> lightcurve" where
  "make_detection p peak_idx lc sim =
     (if length (times lc) \<le> peak_idx then (Inl IndexError, lc)
      else case snr lc of
        None \<Rightarrow> (Inl KeyError, lc)
      | Some col \<Rightarrow>
          if length col \<le> peak_idx then (Inl KeyError, lc)
          else case get_event_indices p lc of
            Inl e \<Rightarrow> (Inl e, lc)
          | Inr ti \<Rightarrow>
             (case detected lc of
                None \<Rightarrow> (Inl Unmodelled, lc)
              | Some d \<Rightarrow>
                  let lc' = lc\<lparr>detected := Some (map2 (\<or>) d ti)\<rparr>;
                      w = np_where ti
                  in if w = [] then (Inl IndexError, lc')
                     else (Inr \<lparr>time_peak = times lc ! peak_idx,
                                det_snr = col ! peak_idx,
                                time_indices = ti,
                                time_start = times lc ! hd w,
                                time_end = times lc ! last w,
                                simulated = (sim \<noteq> None),
                                sim_pars = sim\<rparr>, lc')))"

text \<open>
  The score computation at the head of the loop over the lightcurves: the columns
  \<^verbatim>\<open>snr\<close> and \<^verbatim>\<open>dmag\<close> are written anew, the column \<^verbatim>\<open>detected\<close> is created
  all False only when it is absent.
\<close>

definition add_scores :: "lightcurve \<Rightarrow> lightcurve" where
  "add_scores lc =
     lc\<lparr>snr := Some (map2 np_div (map (\<lambda>f. np_sub f (flux_mean_robust lc)) (flux lc))
                                 (estimate_flux_noise lc)),
        dmag := Some (map (\<lambda>m. np_sub m (median (mag lc))) (mag lc)),
        detected := (case detected lc of
                       None \<Rightarrow> Some (replicate (length (flux lc)) False)
                     | Some d \<Rightarrow> Some d)\<rparr>"

text \<open>
  One pass of the loop \<^verbatim>\<open>for i in range(max_det_per_lc)\<close>. \<^verbatim>\<open>.values\<close> is a view
  of the column: with \<^verbatim>\<open>abs_snr\<close> off, \<^verbatim>\<open>snr[mask] = 0\<close> writes into the column
  \<^verbatim>\<open>snr\<close> itself; with \<^verbatim>\<open>abs_snr\<close> on, \<^verbatim>\<open>np.abs\<close> has made a new array and the
  column is untouched. \<open>masked_snr\<close> is the array after \<^verbatim>\<open>snr[mask] = 0\<close>.
\<close>

definition masked_snr :: "pars \<Rightarrow> lightcurve \<Rightarrow> error + npfloat list" where
  "masked_snr p lc =
     (case snr lc of
        None \<Rightarrow> Inl KeyError
      | Some col \<Rightarrow>
         (case detected lc of
            None \<Rightarrow> Inl KeyError
          | Some d \<Rightarrow>
              let work = (if abs_snr p then map np_abs col else col);
                  mask = map (\<lambda>(dt, fl, v). dt \<or> fl \<or> np_isnan v) (zip d (zip (flag lc) work))
              in if length d \<noteq> length work \<or> length (flag lc) \<noteq> length work
                 then Inl Unmodelled
                 else Inr (map (\<lambda>(m, v). if m then Fin 0 else v) (zip mask work))))"

datatype step = Stop lightcurve | Emit detection lightcurve | Raise error lightcurve

definition loop_step :: "pars \<Rightarrow> sim_dict option \<Rightarrow> lightcurve \<Rightarrow> step" where
  "loop_step p sim lc =
     (case masked_snr p lc of
        Inl e \<Rightarrow> Raise e lc
      | Inr work \<Rightarrow>
          let lc1 = (if abs_snr p then lc else lc\<lparr>snr := Some work\<rparr>)
          in case np_argmax work of
               Inl e \<Rightarrow> Raise e lc1
             | Inr idx \<Rightarrow>
                 if np_gt (work ! idx) (Fin (snr_threshold p))
                 then (case make_detection p idx lc1 sim of
                         (Inl e, lc2) \<Rightarrow> Raise e lc2
                       | (Inr det, lc2) \<Rightarrow> Emit det lc2)
                 else Stop lc1)"

text \<open>The loop, \<open>n\<close> passes at most; the detections come out in the order of the passes.\<close>

fun extract_loop ::
  "pars \<Rightarrow> sim_dict option \<Rightarrow> nat \<Rightarrow> lightcurve \<Rightarrow> (error + detection list) \<times> lightcurve" where
  "extract_loop p sim 0 lc = (Inr [], lc)"
| "extract_loop p sim (Suc n) lc =
     (case loop_step p sim lc of
        Stop lc' \<Rightarrow> (Inr [], lc')
      | Raise e lc' \<Rightarrow> (Inl e, lc')
      | Emit det lc' \<Rightarrow>
         (case extract_loop p sim n lc' of
            (Inl e, lc'') \<Rightarrow> (Inl e, lc'')
          | (Inr dets, lc'') \<Rightarrow> (Inr (det # dets), lc'')))"

text \<open>The body of \<^verbatim>\<open>for lc in lightcurves\<close>, for one lightcurve.\<close>

definition ingest_lightcurve ::
  "pars \<Rightarrow> sim_dict option \<Rightarrow> lightcurve \<Rightarrow> (error + detection list) \<times> lightcurve" where
  "ingest_lightcurve p sim lc = extract_loop p sim (nat (max_det_per_lc p)) (add_scores lc)"

text \<open>
  \<^verbatim>\<open>ingest_lightcurves\<close> over a list of distinct lightcurve objects (a single
  lightcurve is wrapped into a list of one): the detections of all of them in order, or
  the first exception, which leaves the later lightcurves untouched.
\<close>

fun ingest_lightcurves ::
  "pars \<Rightarrow> sim_dict option \<Rightarrow> lightcurve list \<Rightarrow> (error + detection list) \<times> lightcurve list" where
  "ingest_lightcurves p sim [] = (Inr [], [])"
| "ingest_lightcurves p sim (lc # lcs) =
     (case ingest_lightcurve p sim lc of
        (Inl e, lc') \<Rightarrow> (Inl e, lc' # lcs)
      | (Inr dets, lc') \<Rightarrow>
         (case ingest_lightcurves p sim lcs of
            (Inl e, lcs') \<Rightarrow> (Inl e, lc' # lcs')
          | (Inr dets', lcs') \<Rightarrow> (Inr (dets @ dets'), lc' # lcs')))"

section \<open>The collections\<close>

text \<open>
  An operation of a collection returns the new state of the list, or the exception it
  raises; the state of a list after a failed operation is not followed further.
\<close>

subsection \<open>CircularBufferList\<close>

record 'a circular_buffer_list =
  size_cb :: int
  total_cb :: int
  items_cb :: "'a list"

definition cbl_init :: "int \<Rightarrow> 'a circular_buffer_list" where
  "cbl_init sz = \<lparr>size_cb = sz, total_cb = 0, items_cb = []\<rparr>"

text \<open>The slice \<^verbatim>\<open>xs[start:]\<close>: a negative start counts from the end, and \<^verbatim>\<open>-0\<close> is 0.\<close>

definition slice_from :: "'a list \<Rightarrow> int \<Rightarrow> 'a list" where
  "slice_from xs start =
     (if start < 0 then drop (nat (int (length xs) + start)) xs else drop (nat start) xs)"

definition cbl_append :: "'a circular_buffer_list \<Rightarrow> 'a \<Rightarrow> error + 'a circular_buffer_list" where
  "cbl_append b v =
     (if int (length (items_cb b)) = size_cb b
      then (case items_cb b of
              [] \<Rightarrow> Inl IndexError
            | x # rest \<Rightarrow> Inr (b\<lparr>items_cb := rest @ [v], total_cb := total_cb b + 1\<rparr>))
      else Inr (b\<lparr>items_cb := items_cb b @ [v], total_cb := total_cb b + 1\<rparr>))"

definition cbl_extend :: "'a circular_buffer_list \<Rightarrow> 'a list \<Rightarrow> error + 'a circular_buffer_list" where
  "cbl_extend b vs =
     Inr (b\<lparr>total_cb := total_cb b + int (length vs),
            items_cb := slice_from (items_cb b @ vs) (- size_cb b)\<rparr>)"

datatype 'a list_op = Append 'a | Extend "'a list"

fun cbl_apply :: "'a circular_buffer_list \<Rightarrow> 'a list_op \<Rightarrow> error + 'a circular_buffer_list" where
  "cbl_apply b (Append v) = cbl_append b v"
| "cbl_apply b (Extend vs) = cbl_extend b vs"

fun cbl_run :: "'a circular_buffer_list \<Rightarrow> 'a list_op list \<Rightarrow> error + 'a circular_buffer_list" where
  "cbl_run b [] = Inr b"
| "cbl_run b (x # xs) = (case cbl_apply b x of Inl e \<Rightarrow> Inl e | Inr b' \<Rightarrow> cbl_run b' xs)"

text \<open>Every element passed to the operations, in the order of insertion.\<close>

fun inserted :: "'a list_op list \<Rightarrow> 'a list" where
  "inserted [] = []"
| "inserted (Append v # xs) = v # inserted xs"
| "inserted (Extend vs # xs) = vs @ inserted xs"

definition last_n :: "nat \<Rightarrow> 'a list \<Rightarrow> 'a list" where
  "last_n n xs = drop (length xs - n) xs"

subsection \<open>UniqueList\<close>

text \<open>
  The elements are objects with attributes: an attribute dictionary, \<^verbatim>\<open>getattr\<close>
  raising \<^verbatim>\<open>AttributeError\<close> on a missing name. \<^verbatim>\<open>str.lower\<close> is modelled on the
  ASCII letters.
\<close>

datatype pyval = Str string | Num int

type_synonym pyobj = "(string \<times> pyval) list"

definition getattr :: "pyobj \<Rightarrow> string \<Rightarrow> error + pyval" where
  "getattr ob att = (case map_of ob att of None \<Rightarrow> Inl AttributeError | Some v \<Rightarrow> Inr v)"

definition lower_char :: "char \<Rightarrow> char" where
  "lower_char c =
     (if 65 \<le> (of_char c :: nat) \<and> (of_char c :: nat) \<le> 90
      then char_of ((of_char c :: nat) + 32) else c)"

definition lower :: "string \<Rightarrow> string" where
  "lower s = map lower_char s"

record unique_list =
  comparison_attributes :: "string list"
  ignorecase :: bool
  items_ul :: "pyobj list"

definition ul_init :: "string list \<Rightarrow> bool \<Rightarrow> unique_list" where
  "ul_init atts ic =
     \<lparr>comparison_attributes = (if length atts = 0 then [''name''] else atts),
      ignorecase = ic, items_ul = []\<rparr>"

fun compare_keys :: "bool \<Rightarrow> pyval \<Rightarrow> pyval \<Rightarrow> bool" where
  "compare_keys ic (Str a) (Str b) = (if ic then lower a = lower b else a = b)"
| "compare_keys ic k1 k2 = (k1 = k2)"

text \<open>\<^verbatim>\<open>_check\<close>: the loop over the comparison attributes, False at the first difference.\<close>

fun check_atts :: "bool \<Rightarrow> string list \<Rightarrow> pyobj \<Rightarrow> pyobj \<Rightarrow> error + bool" where
  "check_atts ic [] v other = Inr True"
| "check_atts ic (att # atts) v other =
     (case getattr v att of
        Inl e \<Rightarrow> Inl e
      | Inr k1 \<Rightarrow>
         (case getattr other att of
            Inl e \<Rightarrow> Inl e
          | Inr k2 \<Rightarrow> if \<not> compare_keys ic k1 k2 then Inr False else check_atts ic atts v other))"

definition check :: "unique_list \<Rightarrow> pyobj \<Rightarrow> pyobj \<Rightarrow> error + bool" where
  "check ul v other = check_atts (ignorecase ul) (comparison_attributes ul) v other"

text \<open>
  \<^verbatim>\<open>_check_and_remove\<close> walks the indices from the last to the first and pops the
  elements that match; \<open>remove_rev\<close> takes the list reversed, last element first, and
  returns the elements kept, reversed too.
\<close>

fun remove_rev :: "unique_list \<Rightarrow> pyobj \<Rightarrow> pyobj list \<Rightarrow> error + pyobj list" where
  "remove_rev ul v [] = Inr []"
| "remove_rev ul v (x # xs) =
     (case check ul v x of
        Inl e \<Rightarrow> Inl e
      | Inr b \<Rightarrow>
         (case remove_rev ul v xs of
            Inl e \<Rightarrow> Inl e
          | Inr kept \<Rightarrow> Inr (if b then kept else x # kept)))"

definition check_and_remove :: "unique_list \<Rightarrow> pyobj \<Rightarrow> error + unique_list" where
  "check_and_remove ul v =
     (case remove_rev ul v (rev (items_ul ul)) of
        Inl e \<Rightarrow> Inl e
      | Inr kept \<Rightarrow> Inr (ul\<lparr>items_ul := rev kept\<rparr>))"

definition ul_append :: "unique_list \<Rightarrow> pyobj \<Rightarrow> error + unique_list" where
  "ul_append ul v =
     (case check_and_remove ul v of
        Inl e \<Rightarrow> Inl e
      | Inr ul' \<Rightarrow> Inr (ul'\<lparr>items_ul := items_ul ul' @ [v]\<rparr>))"

text \<open>\<^verbatim>\<open>extend\<close>: every new value is checked against the list, then all are added.\<close>

fun remove_all :: "unique_list \<Rightarrow> pyobj list \<Rightarrow> error + unique_list" where
  "remove_all ul [] = Inr ul"
| "remove_all ul (v # vs) =
     (case check_and_remove ul v of Inl e \<Rightarrow> Inl e | Inr ul' \<Rightarrow> remove_all ul' vs)"

definition ul_extend :: "unique_list \<Rightarrow> pyobj list \<Rightarrow> error + unique_list" where
  "ul_extend ul vs =
     (case remove_all ul vs of
        Inl e \<Rightarrow> Inl e
      | Inr ul' \<Rightarrow> Inr (ul'\<lparr>items_ul := items_ul ul' @ vs\<rparr>))"

section \<open>Notions used by the properties\<close>

text \<open>
  What the finder only reads: the raw measurement columns, and with them the times and
  the two robust statistics of the lightcurve.
\<close>

definition raw_columns ::
  "lightcurve \<Rightarrow> real list \<times> npfloat list \<times> npfloat list \<times> npfloat list \<times> bool list" where
  "raw_columns lc = (times lc, flux lc, fluxerr lc, mag lc, flag lc)"

definition same_raw :: "lightcurve \<Rightarrow> lightcurve \<Rightarrow> bool" where
  "same_raw a b =
     (times a = times b \<and> flux a = flux b \<and> fluxerr a = fluxerr b \<and> mag a = mag b \<and>
      flag a = flag b \<and> flux_mean_robust a = flux_mean_robust b \<and>
      flux_rms_robust a = flux_rms_robust b)"

fun step_lc :: "step \<Rightarrow> lightcurve" where
  "step_lc (Stop lc) = lc"
| "step_lc (Emit d lc) = lc"
| "step_lc (Raise e lc) = lc"

text \<open>
  The maximum that a pass of the loop selects, \<^verbatim>\<open>mx = snr[idx]\<close>, when the pass gets
  that far, and the maxima of the passes of one run of the loop, in order: the run goes
  on to the next pass exactly when \<open>loop_step\<close> emits a detection.
\<close>

definition masked_max :: "pars \<Rightarrow> lightcurve \<Rightarrow> npfloat option" where
  "masked_max p lc =
     (case masked_snr p lc of
        Inl e \<Rightarrow> None
      | Inr work \<Rightarrow> (case np_argmax work of Inl e \<Rightarrow> None | Inr idx \<Rightarrow> Some (work ! idx)))"

fun loop_maxima :: "pars \<Rightarrow> sim_dict option \<Rightarrow> nat \<Rightarrow> lightcurve \<Rightarrow> npfloat list" where
  "loop_maxima p sim 0 lc = []"
| "loop_maxima p sim (Suc n) lc =
     (case masked_max p lc of
        None \<Rightarrow> []
      | Some mx \<Rightarrow>
          mx # (case loop_step p sim lc of Emit det lc' \<Rightarrow> loop_maxima p sim n lc' | _ \<Rightarrow> []))"

text \<open>Cell \<open>i\<close> of the array after \<^verbatim>\<open>snr[mask] = 0\<close>, from the columns.\<close>

definition work_cell :: "pars \<Rightarrow> lightcurve \<Rightarrow> npfloat list \<Rightarrow> bool list \<Rightarrow> nat \<Rightarrow> npfloat" where
  "work_cell p lc col d i =
     (let v = (if abs_snr p then np_abs (col ! i) else col ! i)
      in if d ! i \<or> flag lc ! i \<or> np_isnan v then Fin 0 else v)"

text \<open>
  A lightcurve without marks: the column \<^verbatim>\<open>detected\<close> is absent or all False.
\<close>

definition unmarked :: "lightcurve \<Rightarrow> bool" where
  "unmarked lc =
     (case detected lc of None \<Rightarrow> True | Some d \<Rightarrow> d = replicate (length (flux lc)) False)"

text \<open>
  A lightcurve with zero usable points: every point is marked detected, flagged, or has
  a NaN in the column \<^verbatim>\<open>snr\<close> that the call computes.
\<close>

definition no_usable_points :: "lightcurve \<Rightarrow> bool" where
  "no_usable_points lc =
     (case (snr (add_scores lc), detected (add_scores lc)) of
        (Some col, Some d) \<Rightarrow>
          list_all (\<lambda>(dt, fl, v). dt \<or> fl \<or> np_isnan v) (zip d (zip (flag lc) col))
      | _ \<Rightarrow> True)"

text \<open>
  The state of a lightcurve inside the loop: the columns \<^verbatim>\<open>snr\<close> and
  \<^verbatim>\<open>detected\<close> exist and all columns have \<open>n\<close> cells.
\<close>

definition ready :: "nat \<Rightarrow> lightcurve \<Rightarrow> bool" where
  "ready n lc =
     (length (times lc) = n \<and> length (flag lc) = n \<and>
      (case snr lc of None \<Rightarrow> False | Some col \<Rightarrow> length col = n) \<and>
      (case detected lc of None \<Rightarrow> False | Some d \<Rightarrow> length d = n))"

text \<open>
  For the unique list: an object that has every comparison attribute, and a list whose
  elements have pairwise different keys, as \<^verbatim>\<open>_check\<close> compares a later element
  with an earlier one.
\<close>

definition has_atts :: "unique_list \<Rightarrow> pyobj \<Rightarrow> bool" where
  "has_atts ul ob = list_all (\<lambda>att. map_of ob att \<noteq> None) (comparison_attributes ul)"

definition keys_distinct :: "unique_list \<Rightarrow> pyobj list \<Rightarrow> bool" where
  "keys_distinct ul xs = sorted_wrt (\<lambda>earlier later. check ul later earlier = Inr False) xs"

text \<open>
  The state a circular buffer of capacity \<open>sz\<close> is in after the elements \<open>hist\<close> have
  been inserted.
\<close>

definition cbl_inv :: "int \<Rightarrow> 'a list \<Rightarrow> 'a circular_buffer_list \<Rightarrow> bool" where
  "cbl_inv sz hist b =
     (size_cb b = sz \<and> items_cb b = last_n (nat sz) hist \<and> total_cb b = int (length hist))"

text \<open>Two objects with the same name, for the unique list.\<close>

definition obj_a1 :: pyobj where
  "obj_a1 = [(''name'', Str ''a''), (''foo'', Num 1)]"

definition obj_a2 :: pyobj where
  "obj_a2 = [(''name'', Str ''a''), (''foo'', Num 2)]"

text \<open>
  Example lightcurves with mean 0 and noise 1, so that snr = flux, and the default
  options with another cap on the detections.
\<close>

definition lc_of_flux :: "npfloat list \<Rightarrow> lightcurve" where
  "lc_of_flux fs =
     \<lparr>times = map real [10..<10 + length fs], flux = fs, fluxerr = map (\<lambda>_. Fin 1) fs,
      mag = map (\<lambda>_. Fin 0) fs, flag = map (\<lambda>_. False) fs,
      snr = None, dmag = None, detected = None,
      flux_mean_robust = Fin 0, flux_rms_robust = Fin 1\<rparr>"

definition pars_k :: "int \<Rightarrow> pars" where
  "pars_k k = default_pars\<lparr>max_det_per_lc := k\<rparr>"

definition lc_flagged :: lightcurve where
  "lc_flagged = (lc_of_flux [Fin 8, NaN])\<lparr>flag := [True, False]\<rparr>"

definition lc_stale :: lightcurve where
  "lc_stale = (lc_of_flux [Fin 8, Fin 0])\<lparr>snr := Some [Fin 1, Fin 1], detected := Some [False, False]\<rparr>"

definition lc_noise :: lightcurve where
  "lc_noise = (lc_of_flux [Fin 8, Fin 0])\<lparr>fluxerr := [Fin 1, Fin 3], flux_rms_robust := Fin 2\<rparr>"

section \<open>Properties of the finder\<close>

subsection \<open>The raw columns are only read\<close>

lemma same_raw_refl: "same_raw a a"
  by (simp add: same_raw_def)

lemma same_raw_trans: "same_raw a b \<Longrightarrow> same_raw b c \<Longrightarrow> same_raw a c"
  by (simp add: same_raw_def)

lemma same_raw_columns: "same_raw a b \<Longrightarrow> raw_columns b = raw_columns a"
  by (simp add: same_raw_def raw_columns_def)

lemma make_detection_raw: "same_raw lc (snd (make_detection p i lc sim))"
  by (simp add: make_detection_def same_raw_def Let_def split: option.splits sum.splits)

lemma add_scores_raw: "same_raw lc (add_scores lc)"
  by (simp add: add_scores_def same_raw_def)

lemma loop_step_raw: "same_raw lc (step_lc (loop_step p sim lc))"
proof -
  have a: "same_raw lc (if abs_snr p then lc else lc\<lparr>snr := Some w\<rparr>)" for w
    by (simp add: same_raw_def)
  have b: "same_raw lc (snd (make_detection p i (if abs_snr p then lc else lc\<lparr>snr := Some w\<rparr>) sim))"
    for w i
    using same_raw_trans [OF a make_detection_raw] .
  show ?thesis
    using a b
    apply (simp add: loop_step_def Let_def split: sum.splits prod.splits)
    apply (auto simp: same_raw_refl split: sum.splits prod.splits)
     apply (metis snd_conv)+
    done
qed

lemma extract_loop_raw: "same_raw lc (snd (extract_loop p sim n lc))"
proof (induction n arbitrary: lc)
  case 0
  show ?case by (simp add: same_raw_refl)
next
  case (Suc n)
  show ?case
  proof (cases "loop_step p sim lc")
    case (Stop lc')
    with loop_step_raw [of lc p sim] show ?thesis by simp
  next
    case (Raise e lc')
    with loop_step_raw [of lc p sim] show ?thesis by simp
  next
    case (Emit d lc')
    with loop_step_raw [of lc p sim] have "same_raw lc lc'" by simp
    from same_raw_trans [OF this Suc.IH [of lc']] Emit show ?thesis
      by (auto split: prod.splits sum.splits)
  qed
qed

lemma ingest_lightcurve_raw: "same_raw lc (snd (ingest_lightcurve p sim lc))"
  unfolding ingest_lightcurve_def
  using same_raw_trans [OF add_scores_raw extract_loop_raw] .

lemma ingest_lightcurves_raw:
  "map raw_columns (snd (ingest_lightcurves p sim lcs)) = map raw_columns lcs"
proof (induction lcs)
  case Nil
  show ?case by simp
next
  case (Cons lc lcs)
  have "raw_columns (snd (ingest_lightcurve p sim lc)) = raw_columns lc"
    by (rule same_raw_columns [OF ingest_lightcurve_raw])
  with Cons.IH show ?case
    by (auto split: prod.splits sum.splits)
qed

text \<open>
  C9. Whatever the options of the finder, and whether the call returns or raises, a call
  of \<^verbatim>\<open>ingest_lightcurves\<close> leaves the columns time, flux, flux error, magnitude and
  flag of every lightcurve as they were; only \<^verbatim>\<open>snr\<close>, \<^verbatim>\<open>dmag\<close> and
  \<^verbatim>\<open>detected\<close> are written.
\<close>

theorem ingest_only_mutates_derived_columns:
  "raw_columns (snd (ingest_lightcurve p sim lc)) = raw_columns lc \<and>
   map raw_columns (snd (ingest_lightcurves p sim lcs)) = map raw_columns lcs"
  using same_raw_columns [OF ingest_lightcurve_raw] ingest_lightcurves_raw by blast

subsection \<open>The noise estimate\<close>

lemma estimate_flux_noise_raw: "same_raw a b \<Longrightarrow> estimate_flux_noise b = estimate_flux_noise a"
  by (simp add: same_raw_def estimate_flux_noise_def)

lemma np_maximum_Fin: "np_maximum (Fin e) (Fin r) = Fin (max e r)"
  by (simp add: np_maximum_def max_def)

text \<open>
  C7. \<^verbatim>\<open>estimate_flux_noise\<close> returns one cell per point of the lightcurve, cell \<open>i\<close>
  being \<^verbatim>\<open>np.maximum\<close> of the flux error at \<open>i\<close> and the robust RMS, which is the
  larger of the two when both are finite. It is a function of the flux errors and the
  RMS alone and writes nothing, so a second call gives the same array, also after the
  finder has ingested the lightcurve.
\<close>

theorem estimate_flux_noise_spec:
  assumes "wf_lightcurve lc"
  shows "length (estimate_flux_noise lc) = length (times lc) \<and>
         length (estimate_flux_noise lc) = length (flux lc) \<and>
         (\<forall>i < length (flux lc).
            estimate_flux_noise lc ! i = np_maximum (fluxerr lc ! i) (flux_rms_robust lc) \<and>
            (\<forall>e r. fluxerr lc ! i = Fin e \<and> flux_rms_robust lc = Fin r \<longrightarrow>
                   estimate_flux_noise lc ! i = Fin (max e r))) \<and>
         estimate_flux_noise (snd (ingest_lightcurve p sim lc)) = estimate_flux_noise lc"
proof -
  from assms have len: "length (fluxerr lc) = length (flux lc)" "length (times lc) = length (flux lc)"
    by (simp_all add: wf_lightcurve_def Let_def)
  have "estimate_flux_noise (snd (ingest_lightcurve p sim lc)) = estimate_flux_noise lc"
    by (rule estimate_flux_noise_raw [OF ingest_lightcurve_raw])
  with len show ?thesis
    by (auto simp: estimate_flux_noise_def np_maximum_Fin)
qed

theorem estimate_flux_noise_spec_witness:
  "wf_lightcurve lc_noise \<and> length (estimate_flux_noise lc_noise) = 2 \<and>
   (0::nat) < length (flux lc_noise) \<and> fluxerr lc_noise ! 0 = Fin 1 \<and>
   flux_rms_robust lc_noise = Fin 2 \<and> estimate_flux_noise lc_noise ! 0 = Fin (max 1 2) \<and>
   estimate_flux_noise lc_noise ! 1 = np_maximum (Fin 3) (Fin 2)"
proof -
  have wf: "wf_lightcurve lc_noise"
    by (simp add: lc_noise_def lc_of_flux_def wf_lightcurve_def col_ok_def)
  have f: "flux lc_noise = [Fin 8, Fin 0]" "fluxerr lc_noise = [Fin 1, Fin 3]"
    "flux_rms_robust lc_noise = Fin 2"
    by (simp_all add: lc_noise_def lc_of_flux_def)
  from estimate_flux_noise_spec [OF wf, of default_pars None] have
    len: "length (estimate_flux_noise lc_noise) = length (flux lc_noise)" and
    cells: "\<forall>i < length (flux lc_noise).
        estimate_flux_noise lc_noise ! i = np_maximum (fluxerr lc_noise ! i) (flux_rms_robust lc_noise) \<and>
        (\<forall>e r. fluxerr lc_noise ! i = Fin e \<and> flux_rms_robust lc_noise = Fin r \<longrightarrow>
               estimate_flux_noise lc_noise ! i = Fin (max e r))"
    by blast+
  from cells [rule_format, of 0] have c0: "estimate_flux_noise lc_noise ! 0 = Fin (max 1 2)"
    by (simp add: f np_maximum_Fin)
  from cells [rule_format, of 1] have c1: "estimate_flux_noise lc_noise ! 1 = np_maximum (Fin 3) (Fin 2)"
    by (simp add: f)
  from len have "length (estimate_flux_noise lc_noise) = 2"
    by (simp add: f)
  with c0 c1 wf f show ?thesis by simp
qed


subsection \<open>The order of the floats and \<^verbatim>\<open>np.argmax\<close>\<close>

lemma np_le_trans: "np_le a b \<Longrightarrow> np_le b c \<Longrightarrow> np_le a c"
  by (cases a; cases b; cases c) (auto simp: np_le_def)

lemma np_le_refl: "\<not> np_isnan a \<Longrightarrow> np_le a a"
  by (cases a) (auto simp: np_le_def)

lemma np_le_total: "\<not> np_isnan a \<Longrightarrow> \<not> np_isnan b \<Longrightarrow> \<not> np_gt a b \<Longrightarrow> np_le a b"
  by (simp add: np_le_def)

lemma np_gt_le: "np_gt a b \<Longrightarrow> np_le b a"
  by (cases a; cases b) (auto simp: np_le_def)

lemma np_gt_le_trans: "np_gt a b \<Longrightarrow> np_le c b \<Longrightarrow> np_le c a"
  by (cases a; cases b; cases c) (auto simp: np_le_def)

lemma argmax_from_max:
  assumes "\<forall>x\<in>set xs. \<not> np_isnan x" "\<not> np_isnan bv" "b < length pre" "pre ! b = bv"
    "\<forall>x\<in>set pre. np_le x bv"
  shows "argmax_from b bv (length pre) xs < length (pre @ xs) \<and>
         (\<forall>x\<in>set (pre @ xs). np_le x ((pre @ xs) ! argmax_from b bv (length pre) xs))"
  using assms
proof (induction xs arbitrary: pre b bv)
  case Nil
  then show ?case by simp
next
  case (Cons x xs)
  have nx: "\<not> np_isnan x" and nxs: "\<forall>y\<in>set xs. \<not> np_isnan y"
    using Cons.prems(1) by simp_all
  show ?case
  proof (cases "np_gt x bv")
    case True
    have le: "\<forall>y\<in>set (pre @ [x]). np_le y x"
      using Cons.prems(5) True nx by (auto intro: np_gt_le_trans np_le_refl)
    have "argmax_from (length pre) x (length (pre @ [x])) xs < length ((pre @ [x]) @ xs) \<and>
          (\<forall>y\<in>set ((pre @ [x]) @ xs). np_le y (((pre @ [x]) @ xs) ! argmax_from (length pre) x (length (pre @ [x])) xs))"
      by (rule Cons.IH [OF nxs nx _ _ le]) simp_all
    with True Cons.prems(2) nx show ?thesis by simp
  next
    case False
    have le: "\<forall>y\<in>set (pre @ [x]). np_le y bv"
      using Cons.prems(5) False nx Cons.prems(2) by (auto intro: np_le_total)
    have "argmax_from b bv (length (pre @ [x])) xs < length ((pre @ [x]) @ xs) \<and>
          (\<forall>y\<in>set ((pre @ [x]) @ xs). np_le y (((pre @ [x]) @ xs) ! argmax_from b bv (length (pre @ [x])) xs))"
      by (rule Cons.IH [OF nxs Cons.prems(2) _ _ le]) (use Cons.prems in \<open>simp_all add: nth_append\<close>)
    with False Cons.prems(2) nx show ?thesis by simp
  qed
qed

lemma np_argmax_max:
  assumes "\<forall>x\<in>set xs. \<not> np_isnan x" "np_argmax xs = Inr idx"
  shows "idx < length xs \<and> (\<forall>x\<in>set xs. np_le x (xs ! idx))"
proof (cases xs)
  case Nil
  with assms show ?thesis by (simp add: np_argmax_def)
next
  case (Cons x rest)
  with assms have idx: "idx = argmax_from 0 x (length [x]) rest" and n: "\<not> np_isnan x"
    "\<forall>y\<in>set rest. \<not> np_isnan y"
    by (simp_all add: np_argmax_def)
  from argmax_from_max [of rest x 0 "[x]"] n idx Cons show ?thesis
    by (simp add: np_le_refl)
qed

lemma masked_snr_eq:
  assumes "snr lc = Some col" "detected lc = Some d" "length d = length col"
    "length (flag lc) = length col"
  shows "masked_snr p lc = Inr (map (work_cell p lc col d) [0..<length col])"
proof -
  define work where "work = (if abs_snr p then map np_abs col else col)"
  have lw: "length work = length col" by (simp add: work_def)
  have "map (\<lambda>(m, v). if m then Fin 0 else v)
          (zip (map (\<lambda>(dt, fl, v). dt \<or> fl \<or> np_isnan v) (zip d (zip (flag lc) work))) work)
        = map (work_cell p lc col d) [0..<length col]"
    by (rule nth_equalityI) (simp_all add: assms lw work_cell_def work_def)
  then show ?thesis
    using assms lw by (simp add: masked_snr_def work_def [symmetric])
qed

lemma masked_snr_InrD:
  assumes "masked_snr p lc = Inr work"
  shows "\<exists>col d. snr lc = Some col \<and> detected lc = Some d \<and> length d = length col \<and>
           length (flag lc) = length col \<and> work = map (work_cell p lc col d) [0..<length col]"
proof -
  from assms obtain col d where c: "snr lc = Some col" "detected lc = Some d"
    by (auto simp: masked_snr_def split: option.splits)
  have len: "length d = length col \<and> length (flag lc) = length col"
  proof (rule ccontr)
    assume "\<not> ?thesis"
    with c have "masked_snr p lc = Inl Unmodelled"
      by (simp add: masked_snr_def Let_def)
    with assms show False by simp
  qed
  with masked_snr_eq [OF c, of p] assms c show ?thesis by simp
qed

lemma work_cell_not_nan: "\<not> np_isnan (work_cell p lc col d i)"
  by (simp add: work_cell_def Let_def)

lemma masked_snr_not_nan:
  assumes "masked_snr p lc = Inr work"
  shows "\<forall>x\<in>set work. \<not> np_isnan x"
proof -
  from masked_snr_InrD [OF assms] obtain col d where
    "work = map (work_cell p lc col d) [0..<length col]" by blast
  then show ?thesis
    by (simp add: work_cell_not_nan)
qed

lemma make_detection_InrD:
  assumes "make_detection p i lc sim = (Inr det, lc')"
  shows "\<exists>col d. snr lc = Some col \<and> detected lc = Some d \<and>
           lc' = lc\<lparr>detected := Some (map2 (\<or>) d (map (\<lambda>v. np_gt v (Fin (event_thresh p))) col))\<rparr> \<and>
           time_indices det = map (\<lambda>v. np_gt v (Fin (event_thresh p))) col \<and>
           np_where (time_indices det) \<noteq> []"
  using assms
  by (auto simp: make_detection_def get_event_indices_def Let_def
      split: if_splits option.splits sum.splits)

lemma loop_step_EmitD:
  assumes "loop_step p sim lc = Emit det lc'"
  shows "\<exists>work idx. masked_snr p lc = Inr work \<and> np_argmax work = Inr idx \<and>
           np_gt (work ! idx) (Fin (snr_threshold p)) \<and>
           make_detection p idx (if abs_snr p then lc else lc\<lparr>snr := Some work\<rparr>) sim = (Inr det, lc')"
  using assms
  by (auto simp: loop_step_def Let_def split: sum.splits if_splits prod.splits)

lemma loop_step_StopD:
  assumes "loop_step p sim lc = Stop lc'"
  shows "\<exists>work idx. masked_snr p lc = Inr work \<and> np_argmax work = Inr idx \<and>
           \<not> np_gt (work ! idx) (Fin (snr_threshold p)) \<and>
           lc' = (if abs_snr p then lc else lc\<lparr>snr := Some work\<rparr>)"
  using assms
  by (auto simp: loop_step_def Let_def split: sum.splits if_splits prod.splits)

lemma loop_step_shrink:
  assumes "loop_step p sim lc = Emit det lc'" "masked_snr p lc = Inr work"
  shows "\<exists>work'. masked_snr p lc' = Inr work' \<and> length work' = length work \<and>
           (\<forall>i<length work. work' ! i = work ! i \<or> work' ! i = Fin 0)"
proof -
  from loop_step_EmitD [OF assms(1)] assms(2) obtain idx where
    md: "make_detection p idx (if abs_snr p then lc else lc\<lparr>snr := Some work\<rparr>) sim = (Inr det, lc')"
    by auto
  from masked_snr_InrD [OF assms(2)] obtain col d where
    c: "snr lc = Some col" "detected lc = Some d" "length d = length col"
       "length (flag lc) = length col" and
    w: "work = map (work_cell p lc col d) [0..<length col]" by blast
  define col1 where "col1 = (if abs_snr p then col else work)"
  define ti where "ti = map (\<lambda>v. np_gt v (Fin (event_thresh p))) col1"
  define d' where "d' = map2 (\<or>) d ti"
  from make_detection_InrD [OF md] c have
    lc': "snr lc' = Some col1" "detected lc' = Some d'" "flag lc' = flag lc"
    by (auto simp: col1_def ti_def d'_def)
  have len: "length col1 = length col" "length d' = length col"
    using c w by (simp_all add: col1_def d'_def ti_def)
  have w': "masked_snr p lc' = Inr (map (work_cell p lc' col1 d') [0..<length col1])"
    by (rule masked_snr_eq [OF lc'(1,2)]) (simp_all add: len lc'(3) c)
  have "work_cell p lc' col1 d' i = work_cell p lc col d i \<or> work_cell p lc' col1 d' i = Fin 0"
    if i: "i < length col" for i
  proof -
    have d'i: "d' ! i = (d ! i \<or> ti ! i)"
      using i c len by (simp add: d'_def ti_def)
    show ?thesis
    proof (cases "abs_snr p")
      case True
      then show ?thesis using d'i lc'(3)
        by (simp add: work_cell_def Let_def col1_def)
    next
      case False
      then have "col1 ! i = work_cell p lc col d i" using i by (simp add: col1_def w)
      with False show ?thesis using d'i lc'(3)
        by (simp add: work_cell_def Let_def)
    qed
  qed
  with w' w len show ?thesis by simp
qed

lemma masked_max_SomeD:
  assumes "masked_max p lc = Some mx"
  shows "\<exists>work idx. masked_snr p lc = Inr work \<and> np_argmax work = Inr idx \<and> mx = work ! idx"
  using assms by (auto simp: masked_max_def split: sum.splits)

lemma loop_step_decreasing:
  assumes "loop_step p sim lc = Emit det lc'" "0 \<le> snr_threshold p"
    "masked_max p lc = Some mx" "masked_max p lc' = Some mx'"
  shows "np_le mx' mx"
proof -
  from masked_max_SomeD [OF assms(3)] obtain work idx where
    w: "masked_snr p lc = Inr work" "np_argmax work = Inr idx" "mx = work ! idx" by blast
  from loop_step_shrink [OF assms(1) w(1)] obtain work' where
    w': "masked_snr p lc' = Inr work'" "length work' = length work"
        "\<forall>i<length work. work' ! i = work ! i \<or> work' ! i = Fin 0" by blast
  from masked_max_SomeD [OF assms(4)] w'(1) obtain idx' where
    i': "np_argmax work' = Inr idx'" "mx' = work' ! idx'" by auto
  from np_argmax_max [OF masked_snr_not_nan [OF w(1)] w(2)] have
    mx: "idx < length work" "\<forall>x\<in>set work. np_le x (work ! idx)" by blast+
  from np_argmax_max [OF masked_snr_not_nan [OF w'(1)] i'(1)] w'(2) have
    idx': "idx' < length work" by simp
  from loop_step_EmitD [OF assms(1)] w have "np_gt mx (Fin (snr_threshold p))" by auto
  with assms(2) have zero: "np_le (Fin 0) mx"
    by (cases mx) (auto simp: np_le_def)
  from w'(3) idx' have "work' ! idx' = work ! idx' \<or> work' ! idx' = Fin 0" by blast
  then show ?thesis
  proof
    assume "work' ! idx' = work ! idx'"
    moreover from idx' have "work ! idx' \<in> set work" by (rule nth_mem)
    ultimately show ?thesis using mx(2) i'(2) w(3) by simp
  next
    assume "work' ! idx' = Fin 0"
    with zero i'(2) show ?thesis by simp
  qed
qed

lemma loop_maxima_sorted:
  assumes "0 \<le> snr_threshold p"
  shows "sorted_wrt (\<lambda>a b. np_le b a) (loop_maxima p sim n lc)"
proof (induction n arbitrary: lc)
  case 0
  show ?case by simp
next
  case (Suc n)
  show ?case
  proof (cases "masked_max p lc")
    case None
    then show ?thesis by simp
  next
    case (Some mx)
    show ?thesis
    proof (cases "loop_step p sim lc")
      case (Emit det lc')
      have rest: "sorted_wrt (\<lambda>a b. np_le b a) (loop_maxima p sim n lc')" by (rule Suc.IH)
      have "np_le y mx" if "y \<in> set (loop_maxima p sim n lc')" for y
      proof (cases n)
        case 0
        with that show ?thesis by simp
      next
        case (Suc m)
        with that obtain mx' where mx': "masked_max p lc' = Some mx'"
          by (cases "masked_max p lc'") auto
        from loop_step_decreasing [OF Emit assms Some mx'] have le: "np_le mx' mx" .
        from mx' Suc obtain tl where tl: "loop_maxima p sim n lc' = mx' # tl" by simp
        with that rest have "y = mx' \<or> np_le y mx'" by auto
        then show ?thesis
        proof
          assume "y = mx'"
          with le show ?thesis by simp
        next
          assume "np_le y mx'"
          then show ?thesis using le by (rule np_le_trans)
        qed
      qed
      with rest Some Emit show ?thesis by simp
    qed (use Some in simp_all)
  qed
qed

subsection \<open>The passes of the loop\<close>

lemma loop_step_Emit_max:
  assumes "loop_step p sim lc = Emit det lc'"
  shows "\<exists>mx. masked_max p lc = Some mx \<and> np_gt mx (Fin (snr_threshold p))"
  using loop_step_EmitD [OF assms] by (auto simp: masked_max_def)

lemma loop_step_Stop_max:
  assumes "loop_step p sim lc = Stop lc'"
  shows "\<exists>mx. masked_max p lc = Some mx \<and> \<not> np_gt mx (Fin (snr_threshold p))"
  using loop_step_StopD [OF assms] by (auto simp: masked_max_def)

lemma extract_loop_trace:
  assumes "fst (extract_loop p sim n lc) = Inr dets"
  shows "length dets \<le> n \<and>
         (\<forall>i<length dets. np_gt (loop_maxima p sim n lc ! i) (Fin (snr_threshold p))) \<and>
         (length dets < n \<longrightarrow>
            length (loop_maxima p sim n lc) = Suc (length dets) \<and>
            \<not> np_gt (loop_maxima p sim n lc ! length dets) (Fin (snr_threshold p)))"
  using assms
proof (induction n arbitrary: lc dets)
  case 0
  then show ?case by simp
next
  case (Suc n)
  show ?case
  proof (cases "loop_step p sim lc")
    case (Stop lc')
    from loop_step_Stop_max [OF Stop] obtain mx where
      "masked_max p lc = Some mx" "\<not> np_gt mx (Fin (snr_threshold p))" by blast
    with Stop Suc.prems show ?thesis by simp
  next
    case (Raise e lc')
    with Suc.prems show ?thesis by simp
  next
    case (Emit d lc')
    from loop_step_Emit_max [OF Emit] obtain mx where
      mx: "masked_max p lc = Some mx" "np_gt mx (Fin (snr_threshold p))" by blast
    obtain r lc'' where r: "extract_loop p sim n lc' = (r, lc'')"
      by (cases "extract_loop p sim n lc'")
    with Suc.prems Emit obtain ds where ds: "r = Inr ds" "dets = d # ds"
      by (cases r) auto
    from r ds have "fst (extract_loop p sim n lc') = Inr ds" by simp
    from Suc.IH [OF this] have
      ih1: "length ds \<le> n" and
      ih2: "\<forall>i<length ds. np_gt (loop_maxima p sim n lc' ! i) (Fin (snr_threshold p))" and
      ih3: "length ds < n \<longrightarrow>
            length (loop_maxima p sim n lc') = Suc (length ds) \<and>
            \<not> np_gt (loop_maxima p sim n lc' ! length ds) (Fin (snr_threshold p))"
      by blast+
    have tr: "loop_maxima p sim (Suc n) lc = mx # loop_maxima p sim n lc'"
      using mx Emit by simp
    have "np_gt (loop_maxima p sim (Suc n) lc ! i) (Fin (snr_threshold p))"
      if "i < length dets" for i
      using that ih2 mx ds unfolding tr by (cases i) simp_all
    moreover have "length dets < Suc n \<longrightarrow>
            length (loop_maxima p sim (Suc n) lc) = Suc (length dets) \<and>
            \<not> np_gt (loop_maxima p sim (Suc n) lc ! length dets) (Fin (snr_threshold p))"
      using ih3 ds unfolding tr by simp
    ultimately show ?thesis using ih1 ds by simp
  qed
qed

text \<open>
  C3. With \<^verbatim>\<open>max_det_per_lc = k\<close>, a call that returns has emitted at most \<open>k\<close>
  detections from the lightcurve (none when \<open>k \<le> 0\<close>; a call that raises returns none
  at all). Every detection comes from a pass whose masked maximum exceeded
  \<^verbatim>\<open>snr_threshold\<close>, and when fewer than \<open>k\<close> were emitted, the pass after the last
  detection found a maximum that did not exceed the threshold and was the last pass run.
\<close>

theorem extractor_emits_at_most_k:
  assumes "fst (ingest_lightcurve p sim lc) = Inr dets"
  shows "int (length dets) \<le> max 0 (max_det_per_lc p) \<and>
         (\<forall>i<length dets.
            np_gt (loop_maxima p sim (nat (max_det_per_lc p)) (add_scores lc) ! i)
                  (Fin (snr_threshold p))) \<and>
         (length dets < nat (max_det_per_lc p) \<longrightarrow>
            length (loop_maxima p sim (nat (max_det_per_lc p)) (add_scores lc)) = Suc (length dets) \<and>
            \<not> np_gt (loop_maxima p sim (nat (max_det_per_lc p)) (add_scores lc) ! length dets)
                    (Fin (snr_threshold p)))"
proof -
  from assms have "fst (extract_loop p sim (nat (max_det_per_lc p)) (add_scores lc)) = Inr dets"
    by (simp add: ingest_lightcurve_def)
  from extract_loop_trace [OF this] show ?thesis by auto
qed

theorem extractor_emits_at_most_k_witness:
  "fst (ingest_lightcurve (pars_k 2) None (lc_of_flux [Fin 8, Fin 0])) =
     Inr [\<lparr>time_peak = 10, det_snr = Fin 8, time_indices = [True, False],
            time_start = 10, time_end = 10, simulated = False, sim_pars = None\<rparr>] \<and>
   (1::int) \<le> max 0 (max_det_per_lc (pars_k 2)) \<and>
   np_gt (loop_maxima (pars_k 2) None (nat (max_det_per_lc (pars_k 2)))
            (add_scores (lc_of_flux [Fin 8, Fin 0])) ! 0) (Fin (snr_threshold (pars_k 2))) \<and>
   (1::nat) < nat (max_det_per_lc (pars_k 2)) \<and>
   length (loop_maxima (pars_k 2) None (nat (max_det_per_lc (pars_k 2)))
            (add_scores (lc_of_flux [Fin 8, Fin 0]))) = 2 \<and>
   \<not> np_gt (loop_maxima (pars_k 2) None (nat (max_det_per_lc (pars_k 2)))
            (add_scores (lc_of_flux [Fin 8, Fin 0])) ! 1) (Fin (snr_threshold (pars_k 2)))"
proof -
  have run: "fst (ingest_lightcurve (pars_k 2) None (lc_of_flux [Fin 8, Fin 0])) =
     Inr [\<lparr>time_peak = 10, det_snr = Fin 8, time_indices = [True, False],
            time_start = 10, time_end = 10, simulated = False, sim_pars = None\<rparr>]"
    by code_simp
  have k: "(1::nat) < nat (max_det_per_lc (pars_k 2))"
    by (simp add: pars_k_def)
  from extractor_emits_at_most_k [OF run] k run show ?thesis by simp
qed

text \<open>
  C10. With \<^verbatim>\<open>snr_threshold \<ge> 0\<close>, the masked maxima that the passes of one run of the
  loop select never increase from one pass to the next: a pass only adds marks to
  \<^verbatim>\<open>detected\<close>, so every cell of the next masked array is the same cell of this one
  or 0, and 0 is below the maximum of a pass that emitted.
\<close>

theorem maxima_non_increasing:
  assumes "0 \<le> snr_threshold p"
  shows "sorted_wrt (\<lambda>a b. np_le b a)
           (loop_maxima p sim (nat (max_det_per_lc p)) (add_scores lc))"
  using assms by (rule loop_maxima_sorted)

theorem maxima_non_increasing_witness:
  "0 \<le> snr_threshold (pars_k 3) \<and>
   loop_maxima (pars_k 3) None (nat (max_det_per_lc (pars_k 3)))
     (add_scores (lc_of_flux [Fin 6, Fin 9, Fin (- 7)])) = [Fin 9, Fin 7, Fin 7] \<and>
   sorted_wrt (\<lambda>a b. np_le b a)
     (loop_maxima (pars_k 3) None (nat (max_det_per_lc (pars_k 3)))
        (add_scores (lc_of_flux [Fin 6, Fin 9, Fin (- 7)])))"
proof -
  have thr: "0 \<le> snr_threshold (pars_k 3)"
    by (simp add: pars_k_def default_pars_def)
  have tr: "loop_maxima (pars_k 3) None (nat (max_det_per_lc (pars_k 3)))
     (add_scores (lc_of_flux [Fin 6, Fin 9, Fin (- 7)])) = [Fin 9, Fin 7, Fin 7]"
    by code_simp
  from maxima_non_increasing [OF thr, of None "lc_of_flux [Fin 6, Fin 9, Fin (- 7)]"] thr tr
  show ?thesis by simp
qed


subsection \<open>The exceptions of a call\<close>

text \<open>
  On a well-formed lightcurve the loop keeps the columns in step, and a call raises
  nothing but the \<^verbatim>\<open>ValueError\<close> of \<^verbatim>\<open>np.argmax\<close> on an empty array and the
  \<^verbatim>\<open>IndexError\<close> of an empty event region.
\<close>

lemma ready_add_scores: "wf_lightcurve lc \<Longrightarrow> ready (length (flux lc)) (add_scores lc)"
  by (auto simp: ready_def wf_lightcurve_def Let_def col_ok_def add_scores_def
      estimate_flux_noise_def split: option.splits)

lemma ready_masked:
  assumes "ready n lc"
  shows "\<exists>work. masked_snr p lc = Inr work \<and> length work = n"
proof -
  from assms obtain col d where c: "snr lc = Some col" "detected lc = Some d"
    "length col = n" "length d = n" "length (flag lc) = n"
    by (auto simp: ready_def split: option.splits)
  from masked_snr_eq [OF c(1,2), of p] c show ?thesis by simp
qed

lemma make_detection_ready:
  assumes "ready n lc" "i < n"
  shows "(\<exists>det. fst (make_detection p i lc sim) = Inr det) \<or>
         fst (make_detection p i lc sim) = Inl IndexError"
    and "ready n (snd (make_detection p i lc sim))"
proof -
  from assms obtain col d where c: "snr lc = Some col" "detected lc = Some d"
    "length col = n" "length d = n" "length (flag lc) = n" "length (times lc) = n"
    by (auto simp: ready_def split: option.splits)
  with assms(2) show "(\<exists>det. fst (make_detection p i lc sim) = Inr det) \<or>
         fst (make_detection p i lc sim) = Inl IndexError"
    by (simp add: make_detection_def get_event_indices_def Let_def)
  from c assms(2) show "ready n (snd (make_detection p i lc sim))"
    by (simp add: make_detection_def get_event_indices_def Let_def ready_def)
qed

lemma ready_write_through:
  assumes "ready n lc" "length work = n"
  shows "ready n (if abs_snr p then lc else lc\<lparr>snr := Some work\<rparr>)"
  using assms by (simp add: ready_def)

lemma loop_step_ready:
  assumes "ready n lc"
  shows "ready n (step_lc (loop_step p sim lc)) \<and>
         (\<forall>e lc'. loop_step p sim lc = Raise e lc' \<longrightarrow> e = ValueError \<or> e = IndexError)"
proof -
  from ready_masked [OF assms, of p] obtain work where
    w: "masked_snr p lc = Inr work" "length work = n" by blast
  let ?lc1 = "if abs_snr p then lc else lc\<lparr>snr := Some work\<rparr>"
  have r1: "ready n ?lc1" by (rule ready_write_through [OF assms w(2)])
  show ?thesis
  proof (cases "np_argmax work")
    case (Inl e)
    then have "e = ValueError" by (auto simp: np_argmax_def split: list.splits)
    with Inl w r1 show ?thesis by (simp add: loop_step_def Let_def)
  next
    case (Inr idx)
    from np_argmax_max [OF masked_snr_not_nan [OF w(1)] Inr] w(2) have idx: "idx < n" by simp
    from make_detection_ready [OF r1 idx, of p sim] Inr w show ?thesis
      by (auto simp: loop_step_def Let_def r1 split: prod.splits sum.splits)
  qed
qed

lemma extract_loop_errors:
  assumes "ready m lc"
  shows "fst (extract_loop p sim n lc) = Inl e \<Longrightarrow> e = ValueError \<or> e = IndexError"
  using assms
proof (induction n arbitrary: lc)
  case 0
  then show ?case by simp
next
  case (Suc n)
  note st = loop_step_ready [OF Suc.prems(2), of p sim]
  show ?case
  proof (cases "loop_step p sim lc")
    case (Stop lc')
    with Suc.prems show ?thesis by simp
  next
    case (Raise e' lc')
    with Suc.prems st show ?thesis by auto
  next
    case (Emit d lc')
    with st have r: "ready m lc'" by simp
    obtain r' lc'' where x: "extract_loop p sim n lc' = (r', lc'')"
      by (cases "extract_loop p sim n lc'")
    with Suc.prems(1) Emit have "fst (extract_loop p sim n lc') = Inl e"
      by (cases r') auto
    from Suc.IH [OF this r] show ?thesis .
  qed
qed

lemma ingest_lightcurve_errors:
  assumes "wf_lightcurve lc" "fst (ingest_lightcurve p sim lc) = Inl e"
  shows "e = ValueError \<or> e = IndexError"
  using extract_loop_errors [OF ready_add_scores [OF assms(1)]] assms(2)
  by (simp add: ingest_lightcurve_def)

subsection \<open>The event region and the peak\<close>

text \<open>
  C2, at the default options, on a lightcurve with one dip of snr -8: the pass selects
  the dip (masked maximum 8 > 5, since \<^verbatim>\<open>abs_snr\<close> is on), but
  \<^verbatim>\<open>get_event_indices\<close> compares the signed column with the threshold 3, so the
  region is empty, the peak is not in it, and reading its first index raises
  \<^verbatim>\<open>IndexError\<close>.
\<close>

theorem dip_detection_raises:
  "masked_max default_pars (add_scores (lc_of_flux [Fin (- 8), Fin 0])) = Some (Fin 8) \<and>
   np_gt (Fin 8) (Fin (snr_threshold default_pars)) \<and>
   get_event_indices default_pars (add_scores (lc_of_flux [Fin (- 8), Fin 0])) = Inr [False, False] \<and>
   fst (ingest_lightcurve default_pars None (lc_of_flux [Fin (- 8), Fin 0])) = Inl IndexError"
  by code_simp

text \<open>
  C1, with \<^verbatim>\<open>max_det_per_lc = 2\<close> and otherwise the default options, on a
  lightcurve with a peak of snr 8 and a dip of snr -8: the two detections emitted by the
  one call have the same \<^verbatim>\<open>time_indices\<close>, True at index 0 in both, and the second
  one's time range is that of the first event, not of its own peak.
\<close>

theorem two_detections_share_indices:
  "fst (ingest_lightcurve (pars_k 2) None (lc_of_flux [Fin 8, Fin (- 8)])) =
     Inr [\<lparr>time_peak = 10, det_snr = Fin 8, time_indices = [True, False],
            time_start = 10, time_end = 10, simulated = False, sim_pars = None\<rparr>,
          \<lparr>time_peak = 11, det_snr = Fin (- 8), time_indices = [True, False],
            time_start = 10, time_end = 10, simulated = False, sim_pars = None\<rparr>]"
  by code_simp

subsection \<open>Repeated ingestion\<close>

text \<open>
  What a second call on the same lightcurve object does: the marks of the first call
  are still in the column \<^verbatim>\<open>detected\<close>, so the peak found before is masked and
  nothing is emitted.
\<close>

theorem second_call_differs:
  "fst (ingest_lightcurve default_pars None (lc_of_flux [Fin 8, Fin 0])) =
     Inr [\<lparr>time_peak = 10, det_snr = Fin 8, time_indices = [True, False],
            time_start = 10, time_end = 10, simulated = False, sim_pars = None\<rparr>] \<and>
   fst (ingest_lightcurve default_pars None
          (snd (ingest_lightcurve default_pars None (lc_of_flux [Fin 8, Fin 0])))) = Inr []"
  by code_simp

lemma add_scores_cong:
  assumes "same_raw a b" "unmarked a" "unmarked b"
  shows "add_scores a = add_scores b"
  using assms
  by (auto simp: same_raw_def unmarked_def add_scores_def estimate_flux_noise_def
      split: option.splits)

text \<open>
  C4, as the code has it. The finder keeps no state of its own, and \<^verbatim>\<open>snr\<close> and
  \<^verbatim>\<open>dmag\<close> are written anew by every call: the detections that a call emits for
  a lightcurve depend only on the options, the simulation argument, the raw columns and
  the statistics, as long as the lightcurve carries no marks (no column
  \<^verbatim>\<open>detected\<close>, or an all-False one). Two such lightcurves with the same raw data
  give the same detections, and a call on real data (\<^verbatim>\<open>sim=None\<close>), which works on
  the lightcurve in place, leaves them in the same state.
\<close>

theorem ingest_depends_on_raw_only:
  assumes "same_raw a b" "unmarked a" "unmarked b"
  shows "fst (ingest_lightcurve p sim a) = fst (ingest_lightcurve p sim b) \<and>
         snd (ingest_lightcurve p None a) = snd (ingest_lightcurve p None b)"
  using add_scores_cong [OF assms] by (simp add: ingest_lightcurve_def)

theorem ingest_depends_on_raw_only_witness:
  "same_raw (lc_of_flux [Fin 8, Fin 0]) lc_stale \<and> unmarked (lc_of_flux [Fin 8, Fin 0]) \<and>
   unmarked lc_stale \<and> lc_of_flux [Fin 8, Fin 0] \<noteq> lc_stale \<and>
   fst (ingest_lightcurve default_pars (Some []) lc_stale) =
     Inr [\<lparr>time_peak = 10, det_snr = Fin 8, time_indices = [True, False],
            time_start = 10, time_end = 10, simulated = True, sim_pars = Some []\<rparr>] \<and>
   fst (ingest_lightcurve default_pars (Some []) (lc_of_flux [Fin 8, Fin 0])) =
     fst (ingest_lightcurve default_pars (Some []) lc_stale) \<and>
   snd (ingest_lightcurve default_pars None (lc_of_flux [Fin 8, Fin 0])) =
     snd (ingest_lightcurve default_pars None lc_stale)"
proof -
  have h: "same_raw (lc_of_flux [Fin 8, Fin 0]) lc_stale" "unmarked (lc_of_flux [Fin 8, Fin 0])"
    "unmarked lc_stale"
    by (simp_all add: same_raw_def unmarked_def lc_stale_def lc_of_flux_def)
  have ne: "lc_of_flux [Fin 8, Fin 0] \<noteq> lc_stale"
    by (simp add: lc_stale_def lc_of_flux_def)
  have run: "fst (ingest_lightcurve default_pars (Some []) lc_stale) =
     Inr [\<lparr>time_peak = 10, det_snr = Fin 8, time_indices = [True, False],
            time_start = 10, time_end = 10, simulated = True, sim_pars = Some []\<rparr>]"
    by code_simp
  from ingest_depends_on_raw_only [OF h, of default_pars "Some []"] h ne run
  show ?thesis by simp
qed

text \<open>
  The docstring of \<^verbatim>\<open>ingest_lightcurves\<close> says that for simulated data
  (\<^verbatim>\<open>sim\<close> a dict) the dataframe is copied before it is modified. The code makes no
  copy: the call writes the scores and the marks into the lightcurve it was given.
\<close>

lemma sim_call_writes_lightcurve:
  "snr (lc_of_flux [Fin 8, Fin 0]) = None \<and> detected (lc_of_flux [Fin 8, Fin 0]) = None \<and>
   snr (snd (ingest_lightcurve default_pars (Some []) (lc_of_flux [Fin 8, Fin 0]))) =
     Some [Fin 8, Fin 0] \<and>
   detected (snd (ingest_lightcurve default_pars (Some []) (lc_of_flux [Fin 8, Fin 0]))) =
     Some [True, False]"
  by code_simp

subsection \<open>Lightcurves without usable points\<close>

text \<open>
  Two lightcurves without usable points on which the loop does not end with zero
  detections: on an empty lightcurve \<^verbatim>\<open>np.argmax\<close> raises \<^verbatim>\<open>ValueError\<close>; and with
  \<^verbatim>\<open>snr_threshold = -1\<close> the masked value 0 of a flagged point exceeds the
  threshold, so a detection is emitted at that point.
\<close>

theorem no_usable_points_counterexample:
  "no_usable_points (lc_of_flux []) \<and>
   fst (ingest_lightcurve default_pars None (lc_of_flux [])) = Inl ValueError \<and>
   no_usable_points ((lc_of_flux [Fin 8])\<lparr>flag := [True]\<rparr>) \<and>
   fst (ingest_lightcurve (default_pars\<lparr>snr_threshold := - 1\<rparr>) None
          ((lc_of_flux [Fin 8])\<lparr>flag := [True]\<rparr>)) =
     Inr [\<lparr>time_peak = 10, det_snr = Fin 8, time_indices = [True],
            time_start = 10, time_end = 10, simulated = False, sim_pars = None\<rparr>]"
  by code_simp

lemma argmax_from_zeros: "argmax_from b (Fin 0) i (replicate m (Fin 0)) = b"
  by (induction m arbitrary: i) simp_all

lemma np_argmax_zeros: "0 < n \<Longrightarrow> np_argmax (replicate n (Fin 0)) = Inr 0"
  by (cases n) (simp_all add: np_argmax_def argmax_from_zeros)

lemma np_isnan_abs: "np_isnan (np_abs v) = np_isnan v"
  by (cases v) simp_all

lemma add_scores_columns:
  assumes "wf_lightcurve lc"
  shows "\<exists>col d. snr (add_scores lc) = Some col \<and> detected (add_scores lc) = Some d \<and>
           length col = length (flux lc) \<and> length d = length (flux lc) \<and>
           length (flag (add_scores lc)) = length (flux lc)"
  using assms
  by (auto simp: wf_lightcurve_def Let_def col_ok_def add_scores_def estimate_flux_noise_def
      split: option.splits)

lemma no_usable_masked:
  assumes "wf_lightcurve lc" "no_usable_points lc"
  shows "masked_snr p (add_scores lc) = Inr (replicate (length (flux lc)) (Fin 0))"
proof -
  from add_scores_columns [OF assms(1)] obtain col d where
    c: "snr (add_scores lc) = Some col" "detected (add_scores lc) = Some d"
       "length col = length (flux lc)" "length d = length (flux lc)"
       "length (flag (add_scores lc)) = length (flux lc)" by blast
  have fl: "flag (add_scores lc) = flag lc" by (simp add: add_scores_def)
  from assms(2) c have all: "list_all (\<lambda>(dt, fl, v). dt \<or> fl \<or> np_isnan v) (zip d (zip (flag lc) col))"
    by (simp add: no_usable_points_def)
  have cell: "work_cell p (add_scores lc) col d i = Fin 0" if "i < length col" for i
  proof -
    from that c fl have "i < length (zip d (zip (flag lc) col))" by simp
    with all have "(\<lambda>(dt, fl, v). dt \<or> fl \<or> np_isnan v) (zip d (zip (flag lc) col) ! i)"
      by (simp add: list_all_length)
    with that c fl have "d ! i \<or> flag lc ! i \<or> np_isnan (col ! i)" by simp
    then show ?thesis by (auto simp: work_cell_def Let_def fl np_isnan_abs)
  qed
  have "map (work_cell p (add_scores lc) col d) [0..<length col] = replicate (length col) (Fin 0)"
    by (rule nth_equalityI) (simp_all add: cell)
  with masked_snr_eq [OF c(1,2), of p] c show ?thesis by simp
qed

lemma no_usable_step:
  assumes "wf_lightcurve lc" "flux lc \<noteq> []" "0 \<le> snr_threshold p" "no_usable_points lc"
  shows "loop_step p sim (add_scores lc) =
           Stop (if abs_snr p then add_scores lc
                 else (add_scores lc)\<lparr>snr := Some (replicate (length (flux lc)) (Fin 0))\<rparr>)"
proof -
  from assms(2) have n: "0 < length (flux lc)" by simp
  show ?thesis
    using no_usable_masked [OF assms(1,4), of p] np_argmax_zeros [OF n] assms(3) n
    by (simp add: loop_step_def Let_def)
qed

text \<open>
  C8, as the code has it. On a lightcurve that is not empty and has zero usable points,
  with \<^verbatim>\<open>snr_threshold \<ge> 0\<close>, all cells of the masked array are 0 (NaN cells
  included), the first pass of the loop stops, and the call returns no detection and does
  not raise.
\<close>

theorem no_usable_points_no_detection:
  assumes "wf_lightcurve lc" "flux lc \<noteq> []" "0 \<le> snr_threshold p" "no_usable_points lc"
  shows "loop_step p sim (add_scores lc) =
           Stop (if abs_snr p then add_scores lc
                 else (add_scores lc)\<lparr>snr := Some (replicate (length (flux lc)) (Fin 0))\<rparr>) \<and>
         fst (ingest_lightcurve p sim lc) = Inr []"
proof -
  note st = no_usable_step [OF assms, of sim]
  have "fst (extract_loop p sim n (add_scores lc)) = Inr []" for n
    by (cases n) (simp_all add: st)
  with st show ?thesis by (simp add: ingest_lightcurve_def)
qed

theorem no_usable_points_no_detection_witness:
  "wf_lightcurve lc_flagged \<and> flux lc_flagged \<noteq> [] \<and> 0 \<le> snr_threshold (pars_k 2) \<and>
   no_usable_points lc_flagged \<and>
   loop_step (pars_k 2) None (add_scores lc_flagged) = Stop (add_scores lc_flagged) \<and>
   fst (ingest_lightcurve (pars_k 2) None lc_flagged) = Inr []"
proof -
  have h: "wf_lightcurve lc_flagged" "flux lc_flagged \<noteq> []" "0 \<le> snr_threshold (pars_k 2)"
    "no_usable_points lc_flagged"
    by code_simp+
  have a: "abs_snr (pars_k 2)" by (simp add: pars_k_def default_pars_def)
  from no_usable_points_no_detection [OF h, of None] h a show ?thesis by simp
qed


section \<open>Properties of the collections\<close>

subsection \<open>CircularBufferList\<close>

lemma last_n_length: "length (last_n n xs) = min n (length xs)"
  by (simp add: last_n_def)

lemma last_n_short: "length xs \<le> n \<Longrightarrow> last_n n xs = xs"
  by (simp add: last_n_def)

lemma last_n_append: "last_n n (last_n n xs @ ys) = last_n n (xs @ ys)"
proof (cases "n \<le> length xs")
  case True
  then show ?thesis by (simp add: last_n_def add.commute)
next
  case False
  then show ?thesis by (simp add: last_n_def)
qed

lemma slice_from_last_n: "1 \<le> sz \<Longrightarrow> slice_from xs (- sz) = last_n (nat sz) xs"
  by (simp add: slice_from_def last_n_def nat_diff_distrib')

lemma cbl_append_inv:
  assumes "1 \<le> sz" "cbl_inv sz hist b"
  shows "\<exists>b'. cbl_append b v = Inr b' \<and> cbl_inv sz (hist @ [v]) b'"
proof (cases "int (length (items_cb b)) = size_cb b")
  case True
  with assms have full: "nat sz \<le> length hist"
    by (auto simp: cbl_inv_def last_n_length)
  with assms have ne: "items_cb b \<noteq> []" using True by (auto simp: cbl_inv_def)
  then obtain x rest where xr: "items_cb b = x # rest" by (cases "items_cb b") auto
  from assms have it: "items_cb b = drop (length hist - nat sz) hist" by (simp add: cbl_inv_def last_n_def)
  have "rest = drop (Suc (length hist) - nat sz) hist"
  proof -
    from xr it have "rest = tl (drop (length hist - nat sz) hist)" by simp
    also have "\<dots> = drop (Suc (length hist - nat sz)) hist" by (simp add: drop_Suc tl_drop)
    also from full have "Suc (length hist - nat sz) = Suc (length hist) - nat sz" by simp
    finally show ?thesis .
  qed
  with full assms(1) have new: "rest @ [v] = last_n (nat sz) (hist @ [v])"
    by (simp add: last_n_def)
  from assms(2) have st: "size_cb b = sz" "total_cb b = int (length hist)"
    by (simp_all add: cbl_inv_def)
  from True xr have "cbl_append b v = Inr (b\<lparr>items_cb := rest @ [v], total_cb := total_cb b + 1\<rparr>)"
    by (simp add: cbl_append_def)
  then show ?thesis
    by (simp add: cbl_inv_def st new)
next
  case False
  with assms have short: "length hist < nat sz"
    by (auto simp: cbl_inv_def last_n_length min_def split: if_splits)
  with assms have it: "items_cb b = hist" by (simp add: cbl_inv_def last_n_short)
  from assms(2) have st: "size_cb b = sz" "total_cb b = int (length hist)"
    by (simp_all add: cbl_inv_def)
  from False have "cbl_append b v = Inr (b\<lparr>items_cb := items_cb b @ [v], total_cb := total_cb b + 1\<rparr>)"
    by (simp add: cbl_append_def)
  then show ?thesis
    using short by (simp add: cbl_inv_def st it last_n_short)
qed

lemma cbl_extend_inv:
  assumes "1 \<le> sz" "cbl_inv sz hist b"
  shows "\<exists>b'. cbl_extend b vs = Inr b' \<and> cbl_inv sz (hist @ vs) b'"
  using assms
  by (simp add: cbl_extend_def cbl_inv_def slice_from_last_n last_n_append)

lemma cbl_run_inv:
  assumes "1 \<le> sz" "cbl_inv sz hist b"
  shows "\<exists>b'. cbl_run b ops = Inr b' \<and> cbl_inv sz (hist @ inserted ops) b'"
  using assms(2)
proof (induction ops arbitrary: b hist)
  case Nil
  then show ?case by simp
next
  case (Cons x ops)
  show ?case
  proof (cases x)
    case (Append v)
    from cbl_append_inv [OF assms(1) Cons.prems, of v] obtain b1 where
      b1: "cbl_append b v = Inr b1" "cbl_inv sz (hist @ [v]) b1" by blast
    from Cons.IH [OF b1(2)] b1(1) Append show ?thesis by simp
  next
    case (Extend vs)
    from cbl_extend_inv [OF assms(1) Cons.prems, of vs] obtain b1 where
      b1: "cbl_extend b vs = Inr b1" "cbl_inv sz (hist @ vs) b1" by blast
    from Cons.IH [OF b1(2)] b1(1) Extend show ?thesis by simp
  qed
qed

text \<open>
  A buffer of capacity 0: \<^verbatim>\<open>extend\<close> truncates with \<^verbatim>\<open>self[-0:]\<close>, which is the
  whole list, so two elements stay in a buffer of size 0; and \<^verbatim>\<open>append\<close> pops from
  the empty list and raises \<^verbatim>\<open>IndexError\<close>.
\<close>

theorem circular_buffer_size_zero:
  "cbl_run (cbl_init 0) [Extend [1::int, 2]] = Inr \<lparr>size_cb = 0, total_cb = 2, items_cb = [1, 2]\<rparr> \<and>
   int (length [1::int, 2]) \<noteq> min 2 0 \<and>
   cbl_run (cbl_init 0) [Append (1::int)] = Inl IndexError"
  by (simp add: cbl_init_def cbl_extend_def cbl_append_def slice_from_def)

text \<open>
  C6, as the code has it. For a buffer of capacity \<open>size \<ge> 1\<close> and every sequence of
  \<^verbatim>\<open>append\<close> and \<^verbatim>\<open>extend\<close>, no operation raises, and after the sequence (so after
  each of its operations) the buffer holds the last \<open>size\<close> elements inserted, in the
  order of insertion, \<^verbatim>\<open>total\<close> counts every element passed in, also those evicted
  within the same \<^verbatim>\<open>extend\<close>, and the length is \<open>min total size\<close>.
\<close>

theorem circular_buffer_keeps_last_size:
  assumes "1 \<le> sz"
  shows "\<exists>b. cbl_run (cbl_init sz) ops = Inr b \<and> size_cb b = sz \<and>
           items_cb b = last_n (nat sz) (inserted ops) \<and>
           total_cb b = int (length (inserted ops)) \<and>
           int (length (items_cb b)) = min (total_cb b) sz"
proof -
  have "cbl_inv sz [] (cbl_init sz)"
    by (simp add: cbl_inv_def cbl_init_def last_n_def)
  from cbl_run_inv [OF assms this, of ops] obtain b where
    b: "cbl_run (cbl_init sz) ops = Inr b" "cbl_inv sz (inserted ops) b" by auto
  from b(2) assms have "int (length (items_cb b)) = min (total_cb b) sz"
    by (auto simp: cbl_inv_def last_n_length)
  with b show ?thesis by (auto simp: cbl_inv_def)
qed

theorem circular_buffer_keeps_last_size_witness:
  "(1::int) \<le> 3 \<and>
   cbl_run (cbl_init 3) [Append (1::int), Append 2, Append 3, Append 4, Extend [5, 6]] =
     Inr \<lparr>size_cb = 3, total_cb = 6, items_cb = [4, 5, 6]\<rparr> \<and>
   last_n (nat 3) (inserted [Append (1::int), Append 2, Append 3, Append 4, Extend [5, 6]]) = [4, 5, 6]"
proof -
  have h: "(1::int) \<le> 3" by simp
  have run: "cbl_run (cbl_init 3) [Append (1::int), Append 2, Append 3, Append 4, Extend [5, 6]] =
     Inr \<lparr>size_cb = 3, total_cb = 6, items_cb = [4, 5, 6]\<rparr>"
    by code_simp
  from circular_buffer_keeps_last_size [OF h, of "[Append (1::int), Append 2, Append 3, Append 4, Extend [5, 6]]"]
    run show ?thesis by simp
qed

subsection \<open>UniqueList\<close>

text \<open>
  \<^verbatim>\<open>append\<close> keeps the keys apart: on a list of objects that have the comparison
  attributes and pairwise different keys, it removes the elements whose key equals the
  new one's, puts the new element at the tail, and the keys are pairwise different
  again.
\<close>

lemma check_atts_total:
  assumes "list_all (\<lambda>att. map_of v att \<noteq> None) atts" "list_all (\<lambda>att. map_of x att \<noteq> None) atts"
  shows "\<exists>b. check_atts ic atts v x = Inr b"
  using assms by (induction atts) (auto simp: getattr_def)

lemma check_total:
  assumes "has_atts ul v" "has_atts ul x"
  shows "\<exists>b. check ul v x = Inr b"
  using assms check_atts_total by (simp add: has_atts_def check_def)

lemma remove_rev_filter:
  assumes "has_atts ul v" "list_all (has_atts ul) xs"
  shows "remove_rev ul v xs = Inr (filter (\<lambda>x. check ul v x \<noteq> Inr True) xs)"
  using assms(2)
proof (induction xs)
  case Nil
  show ?case by simp
next
  case (Cons x xs)
  from Cons.prems have hx: "has_atts ul x" and hxs: "list_all (has_atts ul) xs" by simp_all
  from check_total [OF assms(1) hx] obtain b where b: "check ul v x = Inr b" by blast
  with Cons.IH [OF hxs] show ?case by simp
qed

lemma ul_append_items:
  assumes "has_atts ul v" "list_all (has_atts ul) (items_ul ul)"
  shows "ul_append ul v =
           Inr (ul\<lparr>items_ul := filter (\<lambda>x. check ul v x \<noteq> Inr True) (items_ul ul) @ [v]\<rparr>)"
proof -
  from assms(2) have "list_all (has_atts ul) (rev (items_ul ul))" by (simp add: list_all_iff)
  from remove_rev_filter [OF assms(1) this] show ?thesis
    by (simp add: ul_append_def check_and_remove_def rev_filter)
qed

lemma check_update: "check (ul\<lparr>items_ul := xs\<rparr>) = check ul"
  by (rule ext)+ (simp add: check_def)

lemma has_atts_update: "has_atts (ul\<lparr>items_ul := xs\<rparr>) = has_atts ul"
  by (rule ext) (simp add: has_atts_def)

lemma keys_distinct_update: "keys_distinct (ul\<lparr>items_ul := xs\<rparr>) = keys_distinct ul"
  by (rule ext) (simp add: keys_distinct_def check_update)

lemma ul_append_unique:
  assumes "has_atts ul v" "list_all (has_atts ul) (items_ul ul)" "keys_distinct ul (items_ul ul)"
  shows "\<exists>ul'. ul_append ul v = Inr ul' \<and>
           items_ul ul' = filter (\<lambda>x. check ul v x \<noteq> Inr True) (items_ul ul) @ [v] \<and>
           list_all (has_atts ul') (items_ul ul') \<and> keys_distinct ul' (items_ul ul')"
proof -
  let ?kept = "filter (\<lambda>x. check ul v x \<noteq> Inr True) (items_ul ul)"
  have kept: "keys_distinct ul ?kept"
    using assms(3) by (simp add: keys_distinct_def sorted_wrt_filter)
  have new: "check ul v x = Inr False" if "x \<in> set ?kept" for x
  proof -
    from that assms(2) have "has_atts ul x" by (simp add: list_all_iff)
    from check_total [OF assms(1) this] obtain b where "check ul v x = Inr b" by blast
    with that show ?thesis by auto
  qed
  have "keys_distinct ul (?kept @ [v])"
    unfolding keys_distinct_def sorted_wrt_append
  proof (intro conjI ballI)
    show "sorted_wrt (\<lambda>earlier later. check ul later earlier = Inr False) ?kept"
      using kept by (simp only: keys_distinct_def)
    show "sorted_wrt (\<lambda>earlier later. check ul later earlier = Inr False) [v]"
      by simp
    fix x y
    assume x: "x \<in> set ?kept" and "y \<in> set [v]"
    then have "y = v" by simp
    with new [OF x] show "check ul y x = Inr False" by (simp only:)
  qed
  moreover have "list_all (has_atts ul) (?kept @ [v])"
    using assms(1,2) by (simp add: list_all_iff)
  ultimately show ?thesis
    by (simp add: ul_append_items [OF assms(1,2)] keys_distinct_update has_atts_update)
qed

text \<open>
  C5, on an empty list with the default key: \<^verbatim>\<open>extend\<close> with two objects of the same
  name checks each of them against the list only, not against the other, and adds both,
  so the list holds two elements with equal keys; two calls of \<^verbatim>\<open>append\<close> with the
  same objects leave the second one alone.
\<close>

theorem extend_keeps_equal_keys:
  "ul_extend (ul_init [] False) [obj_a1, obj_a2] =
     Inr \<lparr>comparison_attributes = [''name''], ignorecase = False, items_ul = [obj_a1, obj_a2]\<rparr> \<and>
   check (ul_init [] False) obj_a2 obj_a1 = Inr True \<and>
   (case ul_append (ul_init [] False) obj_a1 of
      Inl e \<Rightarrow> Inl e
    | Inr ul \<Rightarrow> ul_append ul obj_a2) =
     Inr \<lparr>comparison_attributes = [''name''], ignorecase = False, items_ul = [obj_a2]\<rparr>"
  by code_simp

end
